theory Spec2Isabelle
  imports Main
begin

section \<open>JavaScript values and the host\<close>

text \<open>
  The values that flow through \<^verbatim>\<open>core/lambda/curry.js\<close>. A callable is either a
  function of the host program, named by an element of \<open>'f\<close> and opaque to the
  engine, or a closure \<^verbatim>\<open>(...newArgs) => { ... }\<close> made by \<^verbatim>\<open>curried(oldArgs)\<close>,
  which captures \<^verbatim>\<open>arity\<close>, \<^verbatim>\<open>fn\<close> and \<^verbatim>\<open>oldArgs\<close>. The captured array is never
  written to (\<^verbatim>\<open>concat\<close> and \<^verbatim>\<open>slice\<close> build new arrays, and the spread hands the
  elements, not the array, to the callee), so a closure is a value.
  \<open>Undefined\<close> and \<open>Num\<close> stand for the values that are not callable.
  \<^verbatim>\<open>arity\<close> is an integer; the source does not check its sign.
\<close>

datatype 'f val =
    Undefined
  | Num int
  | Native 'f
  | Curried int "'f val" "'f val list"

text \<open>
  A call either returns a value or throws. Calling something that is not a function
  throws a \<^verbatim>\<open>TypeError\<close>; a host function may throw any value.
\<close>

datatype 'f error = NotCallable | Thrown "'f val"

type_synonym 'f result = "'f error + 'f val"

text \<open>
  The host gives every named function its behaviour: from the argument list and the
  host's state to a result and the new state. The engine's theorems hold for every host.
\<close>

type_synonym ('f, 's) host = "'f \<Rightarrow> 'f val list \<Rightarrow> 's \<Rightarrow> 'f result \<times> 's"

text \<open>
  The world threaded through a call: the host's state, and the list of the invocations
  the engine has made so far (callee and argument list, oldest first). The list is
  written at the three call sites of the source, \<^verbatim>\<open>fn(...allArgs)\<close>,
  \<^verbatim>\<open>fn_(...firstFnArgs)\<close> and \<^verbatim>\<open>(...)(...secondFnArgs)\<close>, and read by nothing.
\<close>

record ('f, 's) world =
  trace :: "('f val \<times> 'f val list) list"
  host :: 's

definition invoked :: "'f val \<Rightarrow> 'f val list \<Rightarrow> ('f, 's) world \<Rightarrow> ('f, 's) world" where
  "invoked callee args w = w\<lparr>trace := trace w @ [(callee, args)]\<rparr>"

definition callable :: "'f val \<Rightarrow> bool" where
  "callable v = (case v of Native f \<Rightarrow> True | Curried arity fn oldArgs \<Rightarrow> True | _ \<Rightarrow> False)"

section \<open>Array.prototype.slice\<close>

text \<open>
  \<^verbatim>\<open>xs.slice(start, end)\<close> on integers: a negative index counts from the end, both
  indices are clamped to the array, and an omitted \<^verbatim>\<open>end\<close> (here \<open>None\<close>) is the length.
\<close>

definition slice :: "'a list \<Rightarrow> int \<Rightarrow> int option \<Rightarrow> 'a list" where
  "slice xs start stop =
     (let len = int (length xs);
          k = (if start < 0 then max (len + start) 0 else min start len);
          final = (case stop of
                     None \<Rightarrow> len
                   | Some e \<Rightarrow> if e < 0 then max (len + e) 0 else min e len)
      in take (nat (final - k)) (drop (nat k) xs))"

section \<open>The curry engine\<close>

text \<open>
  \<open>call\<close> applies a value to an argument list. Its equation for a \<open>Curried\<close> closure
  is the body of \<^verbatim>\<open>(...newArgs) => { ... }\<close>, and \<open>unrollInvoke\<close> is the source's
  function of that name. A chain of overflow calls can go on for ever (a host function
  of no arguments that returns a closure of arity 0 over itself, called with one
  argument), so \<open>call\<close> takes fuel, one unit per nested application, and \<open>None\<close> is
  a call that has not returned within it.
\<close>

fun call :: "('f, 's) host \<Rightarrow> nat \<Rightarrow> 'f val \<Rightarrow> 'f val list \<Rightarrow> ('f, 's) world
               \<Rightarrow> ('f result \<times> ('f, 's) world) option"
and unrollInvoke :: "('f, 's) host \<Rightarrow> nat \<Rightarrow> 'f val \<Rightarrow> int \<Rightarrow> 'f val list \<Rightarrow> ('f, 's) world
               \<Rightarrow> ('f result \<times> ('f, 's) world) option"
where
  "call h 0 v args w = None"
| "call h (Suc k) Undefined args w = Some (Inl NotCallable, w)"
| "call h (Suc k) (Num n) args w = Some (Inl NotCallable, w)"
| "call h (Suc k) (Native f) args w =
     (case h f args (host w) of (r, s) \<Rightarrow> Some (r, w\<lparr>host := s\<rparr>))"
| "call h (Suc k) (Curried arity fn oldArgs) newArgs w =
     (let allArgs = oldArgs @ newArgs;
          argCount = int (length allArgs)
      in if argCount < arity then Some (Inr (Curried arity fn allArgs), w)
         else if argCount = arity then call h k fn allArgs (invoked fn allArgs w)
         else unrollInvoke h k fn arity allArgs w)"
| "unrollInvoke h k fn' arity' args w =
     (let firstFnArgs = slice args 0 (Some arity');
          secondFnArgs = slice args arity' None
      in case call h k fn' firstFnArgs (invoked fn' firstFnArgs w) of
           None \<Rightarrow> None
         | Some (Inl e, w') \<Rightarrow> Some (Inl e, w')
         | Some (Inr v, w') \<Rightarrow> call h k v secondFnArgs (invoked v secondFnArgs w'))"

definition curried :: "int \<Rightarrow> 'f val \<Rightarrow> 'f val list \<Rightarrow> 'f val" where
  "curried arity fn oldArgs = Curried arity fn oldArgs"

text \<open>\<^verbatim>\<open>curry(arity, fn)\<close>, the module's export: \<^verbatim>\<open>curried([])\<close>.\<close>

definition curry_js :: "int \<Rightarrow> 'f val \<Rightarrow> 'f val" where
  "curry_js arity fn = curried arity fn []"

text \<open>The argument accumulator a closure holds (\<^verbatim>\<open>oldArgs\<close>); other values hold none.\<close>

fun accumulator :: "'f val \<Rightarrow> 'f val list" where
  "accumulator (Curried arity fn oldArgs) = oldArgs"
| "accumulator v = []"

text \<open>
  The accumulator-length invariant of a closure of the engine: it holds strictly fewer
  arguments than its arity.
\<close>

fun waiting :: "'f val \<Rightarrow> bool" where
  "waiting (Curried arity fn oldArgs) = (int (length oldArgs) < arity)"
| "waiting v = False"

text \<open>
  A caller applying a value to one argument list after the other, \<^verbatim>\<open>c(N1)(N2)...\<close>:
  each call is made on the value the one before returned, and a throw ends the chain.
\<close>

fun callSeq :: "('f, 's) host \<Rightarrow> nat \<Rightarrow> 'f val \<Rightarrow> 'f val list list \<Rightarrow> ('f, 's) world
               \<Rightarrow> ('f result \<times> ('f, 's) world) option" where
  "callSeq h k v [] w = Some (Inr v, w)"
| "callSeq h k v (N # Ns) w =
     (case call h k v N w of
        None \<Rightarrow> None
      | Some (Inl e, w') \<Rightarrow> Some (Inl e, w')
      | Some (Inr v', w') \<Rightarrow> callSeq h k v' Ns w')"

text \<open>
  The closures of one \<^verbatim>\<open>curry(arity, fn)\<close> that a caller holds as still waiting: the
  one \<^verbatim>\<open>curry\<close> returns, and every value that a call on such a closure, with any
  arguments and in any world, hands back without the engine having invoked anything
  during the call (the trace is as it was before the call).
\<close>

inductive exposed :: "('f, 's) host \<Rightarrow> int \<Rightarrow> 'f val \<Rightarrow> 'f val \<Rightarrow> bool"
  for h :: "('f, 's) host" and arity :: int and fn :: "'f val" where
  created: "exposed h arity fn (curry_js arity fn)"
| resumed: "exposed h arity fn c \<Longrightarrow> call h k c N w = Some (Inr c', w') \<Longrightarrow>
            trace w' = trace w \<Longrightarrow> exposed h arity fn c'"

code_pred exposed .

text \<open>
  A host whose functions are pure: what a function returns or throws does not depend on
  the host's state.
\<close>

definition pure_host :: "('f, 's) host \<Rightarrow> bool" where
  "pure_host h = (\<forall>f args s s'. fst (h f args s) = fst (h f args s'))"

section \<open>Sample host functions\<close>

text \<open>
  The functions of the documentation's and the specification's examples, on numbers:
  \<^verbatim>\<open>(a, b) => a + b\<close>, \<^verbatim>\<open>() => 42\<close>, \<^verbatim>\<open>(a, b) => (c) => a + b + c\<close> with the closure
  it returns, \<^verbatim>\<open>(a, b, c) => a + b + c\<close>, \<^verbatim>\<open>(x) => { throw x }\<close>, and a function
  that returns the latter. The host's state counts the calls made to them. On arguments that are not
  numbers \<open>Undefined\<close> stands in for the result; no theorem below depends on it.
\<close>

datatype sample = Add | Const42 | AddThen | AddThenClosure int int | Sum3 | Throw | MkThrow

fun sample_host :: "(sample, nat) host" where
  "sample_host Add args s =
     (case args of Num a # Num b # rest \<Rightarrow> (Inr (Num (a + b)), Suc s)
                 | _ \<Rightarrow> (Inr Undefined, Suc s))"
| "sample_host Const42 args s = (Inr (Num 42), Suc s)"
| "sample_host AddThen args s =
     (case args of Num a # Num b # rest \<Rightarrow> (Inr (Native (AddThenClosure a b)), Suc s)
                 | _ \<Rightarrow> (Inr Undefined, Suc s))"
| "sample_host (AddThenClosure a b) args s =
     (case args of Num c # rest \<Rightarrow> (Inr (Num (a + b + c)), Suc s)
                 | _ \<Rightarrow> (Inr Undefined, Suc s))"
| "sample_host Sum3 args s =
     (case args of Num a # Num b # Num c # rest \<Rightarrow> (Inr (Num (a + b + c)), Suc s)
                 | _ \<Rightarrow> (Inr Undefined, Suc s))"
| "sample_host Throw args s =
     (case args of x # rest \<Rightarrow> (Inl (Thrown x), Suc s)
                 | _ \<Rightarrow> (Inl (Thrown Undefined), Suc s))"
| "sample_host MkThrow args s = (Inr (Native Throw), Suc s)"

definition world0 :: "(sample, nat) world" where
  "world0 = \<lparr>trace = [], host = 0\<rparr>"

section \<open>The engine over a store of arrays\<close>

text \<open>
  In JavaScript the accumulator is an array object, and a closure holds a reference to
  it. To state that a call leaves the accumulators of all closures alone, the engine is
  written a second time over a store of arrays: an array lives at an address (its
  position in the store), a closure captures the address of \<^verbatim>\<open>oldArgs\<close>, and every
  array the source creates is put at a fresh address. Values are as before, with the
  address in place of the list.
\<close>

type_synonym addr = nat

datatype 'f rval =
    RUndefined
  | RNum int
  | RNative 'f
  | RClosure int "'f rval" addr

datatype 'f rerror = RNotCallable | RThrown "'f rval"

type_synonym 'f rresult = "'f rerror + 'f rval"

type_synonym 'f store = "'f rval list list"

type_synonym ('f, 's) rhost = "'f \<Rightarrow> 'f rval list \<Rightarrow> 's \<Rightarrow> 'f rresult \<times> 's"

text \<open>
  The source creates arrays in four places: the rest parameter \<^verbatim>\<open>...newArgs\<close> and the
  literal \<^verbatim>\<open>[]\<close> (\<open>new_array\<close>), \<^verbatim>\<open>oldArgs.concat(newArgs)\<close> (\<open>concat_array\<close>) and
  \<^verbatim>\<open>args.slice(...)\<close> (\<open>slice_array\<close>). Each returns the address of the new array and
  the store with it added; none writes to an array that is there.
\<close>

definition new_array :: "'f store \<Rightarrow> 'f rval list \<Rightarrow> addr \<times> 'f store" where
  "new_array H xs = (length H, H @ [xs])"

definition concat_array :: "'f store \<Rightarrow> addr \<Rightarrow> addr \<Rightarrow> addr \<times> 'f store" where
  "concat_array H a b = new_array H (H ! a @ H ! b)"

definition slice_array :: "'f store \<Rightarrow> addr \<Rightarrow> int \<Rightarrow> int option \<Rightarrow> addr \<times> 'f store" where
  "slice_array H a start stop = new_array H (slice (H ! a) start stop)"

text \<open>
  The closure's body and \<^verbatim>\<open>unrollInvoke\<close>, statement by statement. A spread
  \<^verbatim>\<open>f(...xs)\<close> reads the array \<open>xs\<close> from the store at the moment of the call, so
  \<^verbatim>\<open>secondFnArgs\<close> is read in the store that the first invocation leaves. A host function
  receives the argument values, never an array of the engine. An address outside the
  store cannot arise (addresses only come from the three operations above); a call on
  such a closure has no result.
\<close>

fun callS :: "('f, 's) rhost \<Rightarrow> nat \<Rightarrow> 'f rval \<Rightarrow> 'f rval list \<Rightarrow> 'f store \<times> 's
               \<Rightarrow> ('f rresult \<times> 'f store \<times> 's) option"
and unrollInvokeS :: "('f, 's) rhost \<Rightarrow> nat \<Rightarrow> 'f rval \<Rightarrow> int \<Rightarrow> addr \<Rightarrow> 'f store \<times> 's
               \<Rightarrow> ('f rresult \<times> 'f store \<times> 's) option"
where
  "callS h 0 v args (H, s) = None"
| "callS h (Suc k) RUndefined args (H, s) = Some (Inl RNotCallable, H, s)"
| "callS h (Suc k) (RNum n) args (H, s) = Some (Inl RNotCallable, H, s)"
| "callS h (Suc k) (RNative f) args (H, s) =
     (case h f args s of (r, s') \<Rightarrow> Some (r, H, s'))"
| "callS h (Suc k) (RClosure arity fn oldArgs) args (H, s) =
     (if oldArgs < length H then
        (let (newArgs, H1) = new_array H args;
             (allArgs, H2) = concat_array H1 oldArgs newArgs;
             argCount = int (length (H2 ! allArgs))
         in if argCount < arity then Some (Inr (RClosure arity fn allArgs), H2, s)
            else if argCount = arity then callS h k fn (H2 ! allArgs) (H2, s)
            else unrollInvokeS h k fn arity allArgs (H2, s))
      else None)"
| "unrollInvokeS h k fn' arity' args (H, s) =
     (if args < length H then
        (let (firstFnArgs, H1) = slice_array H args 0 (Some arity');
             (secondFnArgs, H2) = slice_array H1 args arity' None
         in case callS h k fn' (H2 ! firstFnArgs) (H2, s) of
              None \<Rightarrow> None
            | Some (Inl e, st) \<Rightarrow> Some (Inl e, st)
            | Some (Inr v, H3, s3) \<Rightarrow> callS h k v (H3 ! secondFnArgs) (H3, s3))
      else None)"

definition curriedS :: "int \<Rightarrow> 'f rval \<Rightarrow> addr \<Rightarrow> 'f rval" where
  "curriedS arity fn oldArgs = RClosure arity fn oldArgs"

definition curryS :: "int \<Rightarrow> 'f rval \<Rightarrow> 'f store \<Rightarrow> 'f rval \<times> 'f store" where
  "curryS arity fn H = (let (empty, H1) = new_array H [] in (curriedS arity fn empty, H1))"

text \<open>
  What a value over the store stands for: a closure stands for the closure over the
  list its address holds, element by element.
\<close>

inductive rep :: "'f store \<Rightarrow> 'f rval \<Rightarrow> 'f val \<Rightarrow> bool" for H :: "'f store" where
  rep_Undefined: "rep H RUndefined Undefined"
| rep_Num: "rep H (RNum n) (Num n)"
| rep_Native: "rep H (RNative f) (Native f)"
| rep_Closure: "rep H fn fn' \<Longrightarrow> a < length H \<Longrightarrow> list_all2 (rep H) (H ! a) A \<Longrightarrow>
                rep H (RClosure arity fn a) (Curried arity fn' A)"

definition rep_result :: "'f store \<Rightarrow> 'f rresult \<Rightarrow> 'f result \<Rightarrow> bool" where
  "rep_result H r r' =
     (case r of
        Inl RNotCallable \<Rightarrow> r' = Inl NotCallable
      | Inl (RThrown x) \<Rightarrow> (\<exists>y. r' = Inl (Thrown y) \<and> rep H x y)
      | Inr x \<Rightarrow> (\<exists>y. r' = Inr y \<and> rep H x y))"

text \<open>
  A host over the store and a host over plain values agree when, on arguments that stand
  for the same values, they leave the same state and their results stand for the same
  result.
\<close>

definition hosts_agree :: "('f, 's) rhost \<Rightarrow> ('f, 's) host \<Rightarrow> bool" where
  "hosts_agree hs h =
     (\<forall>H f xs ys s. list_all2 (rep H) xs ys \<longrightarrow>
        snd (hs f xs s) = snd (h f ys s) \<and> rep_result H (fst (hs f xs s)) (fst (h f ys s)))"

text \<open>
  An outcome over the store stands for an outcome over plain values: neither returns
  within the fuel, or both do, with the same host state and corresponding results.
\<close>

definition outcome_rep :: "('f rresult \<times> 'f store \<times> 's) option
    \<Rightarrow> ('f result \<times> ('f, 's) world) option \<Rightarrow> bool" where
  "outcome_rep a b =
     (case a of
        None \<Rightarrow> b = None
      | Some (r, H', s') \<Rightarrow> (\<exists>r' w'. b = Some (r', w') \<and> host w' = s' \<and> rep_result H' r r'))"

text \<open>The sample host functions over the store.\<close>

fun sample_hostS :: "(sample, nat) rhost" where
  "sample_hostS Add args s =
     (case args of RNum a # RNum b # rest \<Rightarrow> (Inr (RNum (a + b)), Suc s)
                 | _ \<Rightarrow> (Inr RUndefined, Suc s))"
| "sample_hostS Const42 args s = (Inr (RNum 42), Suc s)"
| "sample_hostS AddThen args s =
     (case args of RNum a # RNum b # rest \<Rightarrow> (Inr (RNative (AddThenClosure a b)), Suc s)
                 | _ \<Rightarrow> (Inr RUndefined, Suc s))"
| "sample_hostS (AddThenClosure a b) args s =
     (case args of RNum c # rest \<Rightarrow> (Inr (RNum (a + b + c)), Suc s)
                 | _ \<Rightarrow> (Inr RUndefined, Suc s))"
| "sample_hostS Sum3 args s =
     (case args of RNum a # RNum b # RNum c # rest \<Rightarrow> (Inr (RNum (a + b + c)), Suc s)
                 | _ \<Rightarrow> (Inr RUndefined, Suc s))"
| "sample_hostS Throw args s =
     (case args of x # rest \<Rightarrow> (Inl (RThrown x), Suc s)
                 | _ \<Rightarrow> (Inl (RThrown RUndefined), Suc s))"
| "sample_hostS MkThrow args s = (Inr (RNative Throw), Suc s)"

section \<open>The documentation attacher\<close>

text \<open>
  An object, as far as \<^verbatim>\<open>copyDocumentation\<close> sees it: the property under the symbol
  \<^verbatim>\<open>Symbol.for('@@meta:magical')\<close> (\<open>None\<close> when the object has none), itself an
  object of string keys, and the object's other properties.
\<close>

record 'v obj =
  mm :: "(string \<rightharpoonup> 'v) option"
  props :: "string \<rightharpoonup> 'v"

text \<open>
  \<^verbatim>\<open>Object.assign(target, ...sources)\<close> on plain objects: the keys of each source in
  turn are written over the target's.
\<close>

definition Object_assign :: "('k \<rightharpoonup> 'v) \<Rightarrow> ('k \<rightharpoonup> 'v) list \<Rightarrow> ('k \<rightharpoonup> 'v)" where
  "Object_assign target sources = foldl (++) target sources"

text \<open>
  Modelled from the spec: \<^verbatim>\<open>env\<close> of \<^verbatim>\<open>folktale/helpers/env\<close>, which the source
  requires and which is not among the source files. The spec: the flag is
  ``sourced from the execution environment, with textual value "false" (or absent,
  defaulting to "false") meaning disabled''. So \<open>env vars name dflt\<close> is the value of
  the variable \<open>name\<close> in the process environment \<open>vars\<close>, and \<open>dflt\<close> when it is unset.
\<close>

definition env :: "(string \<rightharpoonup> string) \<Rightarrow> string \<Rightarrow> string \<Rightarrow> string" where
  "env vars name dflt = (case vars name of None \<Rightarrow> dflt | Some v \<Rightarrow> v)"

text \<open>
  \<^verbatim>\<open>copyDocumentation(source, target, extensions = {})\<close>. The helper \<^verbatim>\<open>env\<close> is a
  parameter; \<open>extensions\<close> is \<open>None\<close> when the caller leaves it out. The function
  has no \<^verbatim>\<open>return\<close>: its result is the unit value, paired with \<^verbatim>\<open>target\<close> as the
  call leaves it.
\<close>

definition copyDocumentation ::
  "(string \<Rightarrow> string \<Rightarrow> string) \<Rightarrow> 'v obj \<Rightarrow> 'v obj \<Rightarrow> (string \<rightharpoonup> 'v) option \<Rightarrow> unit \<times> 'v obj" where
  "copyDocumentation env' source target extensions =
     (let extensions' = (case extensions of None \<Rightarrow> Map.empty | Some e \<Rightarrow> e);
          docs = env' ''FOLKTALE_DOCS'' ''false''
      in if docs \<noteq> ''false''
         then ((), target\<lparr>mm := Some (Object_assign Map.empty
                 [case mm source of None \<Rightarrow> Map.empty | Some d \<Rightarrow> d, extensions'])\<rparr>)
         else ((), target))"


section \<open>Basic facts\<close>

lemma slice_prefix: "0 \<le> n \<Longrightarrow> slice xs 0 (Some n) = take (nat n) xs"
  by (simp add: slice_def Let_def min_def)

lemma slice_suffix: "0 \<le> n \<Longrightarrow> slice xs n None = drop (nat n) xs"
  by (simp add: slice_def Let_def min_def)

lemma invoked_simps [simp]:
  "trace (invoked c args w) = trace w @ [(c, args)]" "host (invoked c args w) = host w"
  by (simp_all add: invoked_def)

text \<open>The three branches of the closure's body, and a call of a host function.\<close>

lemma call_below: "int (length A + length N) < arity \<Longrightarrow>
  call h (Suc k) (Curried arity fn A) N w = Some (Inr (Curried arity fn (A @ N)), w)"
  by simp

lemma call_exact: "int (length A + length N) = arity \<Longrightarrow>
  call h (Suc k) (Curried arity fn A) N w = call h k fn (A @ N) (invoked fn (A @ N) w)"
  by (simp add: Let_def)

lemma call_above: "arity < int (length A + length N) \<Longrightarrow>
  call h (Suc k) (Curried arity fn A) N w = unrollInvoke h k fn arity (A @ N) w"
  by (simp add: Let_def del: unrollInvoke.simps)

lemma unrollInvoke_split: "0 \<le> arity \<Longrightarrow>
  unrollInvoke h k fn arity args w =
    (case call h k fn (take (nat arity) args) (invoked fn (take (nat arity) args) w) of
       None \<Rightarrow> None
     | Some (Inl e, w') \<Rightarrow> Some (Inl e, w')
     | Some (Inr v, w') \<Rightarrow>
         call h k v (drop (nat arity) args) (invoked v (drop (nat arity) args) w'))"
  by (simp add: slice_prefix slice_suffix Let_def)

lemma call_Native: "call h (Suc k) (Native f) args w =
  Some (fst (h f args (host w)), \<lparr>trace = trace w, host = snd (h f args (host w))\<rparr>)"
  by (simp add: case_prod_beta)

lemma call_not_callable: "\<not> callable v \<Longrightarrow> call h (Suc k) v args w = Some (Inl NotCallable, w)"
  by (cases v) (simp_all add: callable_def)

lemma call_Some_fuel: "call h k v args w = Some x \<Longrightarrow> \<exists>j. k = Suc j"
  by (cases k) simp_all

text \<open>A call only ever adds entries at the end of the trace.\<close>

lemma trace_grows:
  "call h k v args w = Some (r, w') \<Longrightarrow> \<exists>ys. trace w' = trace w @ ys"
proof (induction k arbitrary: v args w r w')
  case 0
  then show ?case by simp
next
  case (Suc k)
  show ?case
  proof (cases v)
    case Undefined
    with Suc.prems show ?thesis by simp
  next
    case (Num n)
    with Suc.prems show ?thesis by simp
  next
    case (Native f)
    with Suc.prems show ?thesis by (auto split: prod.splits)
  next
    case (Curried arity fn A)
    let ?all = "A @ args"
    consider (below) "int (length A + length args) < arity"
      | (exact) "int (length A + length args) = arity"
      | (above) "arity < int (length A + length args)"
      by linarith
    then show ?thesis
    proof cases
      case below
      with Suc.prems Curried show ?thesis by (simp add: call_below)
    next
      case exact
      with Suc.prems Curried have "call h k fn ?all (invoked fn ?all w) = Some (r, w')"
        by (simp add: Let_def)
      from Suc.IH [OF this] show ?thesis by auto
    next
      case above
      let ?first = "slice ?all 0 (Some arity)"
      let ?rest = "slice ?all arity None"
      from above Suc.prems Curried
      have u: "unrollInvoke h k fn arity ?all w = Some (r, w')"
        by (simp add: Let_def del: unrollInvoke.simps)
      show ?thesis
      proof (cases "call h k fn ?first (invoked fn ?first w)")
        case None
        with u show ?thesis by (simp add: Let_def)
      next
        case (Some p)
        obtain r1 w1 where p: "p = (r1, w1)" by (cases p)
        from Suc.IH Some p obtain ys where ys: "trace w1 = trace (invoked fn ?first w) @ ys"
          by blast
        show ?thesis
        proof (cases r1)
          case (Inl e)
          with u Some p have "w' = w1" by (simp add: Let_def)
          with ys show ?thesis by auto
        next
          case (Inr V)
          with u Some p have "call h k V ?rest (invoked V ?rest w1) = Some (r, w')"
            by (simp add: Let_def)
          from Suc.IH [OF this] obtain zs where "trace w' = trace (invoked V ?rest w1) @ zs"
            by blast
          with ys show ?thesis by auto
        qed
      qed
    qed
  qed
qed

lemma callSeq_single: "callSeq h k v [N] w = call h k v N w"
  by (simp split: option.splits sum.splits prod.splits)

text \<open>
  Calls that together bring the accumulator to the arity: every call but the last
  returns a closure, and the last invokes the target with everything.
\<close>

lemma callSeq_accumulates:
  "Ns \<noteq> [] \<Longrightarrow> length Ns = 1 \<or> last Ns \<noteq> [] \<Longrightarrow>
   int (length A + length (concat Ns)) = arity \<Longrightarrow>
   callSeq h (Suc k) (Curried arity fn A) Ns w =
     call h k fn (A @ concat Ns) (invoked fn (A @ concat Ns) w)"
proof (induction Ns arbitrary: A)
  case Nil
  then show ?case by simp
next
  case (Cons N Ms)
  show ?case
  proof (cases Ms)
    case Nil
    with Cons.prems show ?thesis
      by (simp add: callSeq_single call_exact del: call.simps callSeq.simps)
  next
    case (Cons M Ms')
    with Cons.prems have l: "last Ms \<noteq> []" by simp
    from Cons have ne: "Ms \<noteq> []" by simp
    then have "last Ms \<in> set Ms" by simp
    with l have "concat Ms \<noteq> []" by auto
    then have pos: "0 < length (concat Ms)" by (cases "concat Ms") simp_all
    have split: "length (concat (N # Ms)) = length N + length (concat Ms)" by simp
    from Cons.prems(3) pos have below: "int (length A + length N) < arity"
      unfolding split by linarith
    from Cons.prems(3) have tot: "int (length (A @ N) + length (concat Ms)) = arity"
      unfolding split by simp
    have "callSeq h (Suc k) (Curried arity fn A) (N # Ms) w =
          callSeq h (Suc k) (Curried arity fn (A @ N)) Ms w"
      using below Cons by simp
    also have "\<dots> = call h k fn ((A @ N) @ concat Ms) (invoked fn ((A @ N) @ concat Ms) w)"
      using Cons.IH [OF ne _ tot] l by blast
    finally show ?thesis by simp
  qed
qed

text \<open>
  With pure host functions, what a call returns or throws, and whether it returns within
  the fuel, is the same in every world.
\<close>

lemma pure_host_call:
  "pure_host h \<Longrightarrow> map_option fst (call h k v args w) = map_option fst (call h k v args w')"
proof (induction k arbitrary: v args w w')
  case 0
  then show ?case by simp
next
  case (Suc k)
  note IH = Suc.IH [OF Suc.prems]
  show ?case
  proof (cases v)
    case Undefined
    then show ?thesis by simp
  next
    case (Num n)
    then show ?thesis by simp
  next
    case (Native f)
    from Suc.prems have "fst (h f args (host w)) = fst (h f args (host w'))"
      unfolding pure_host_def by blast
    with Native show ?thesis by (simp add: call_Native del: call.simps)
  next
    case (Curried arity fn A)
    let ?all = "A @ args"
    consider (below) "int (length A + length args) < arity"
      | (exact) "int (length A + length args) = arity"
      | (above) "arity < int (length A + length args)"
      by linarith
    then show ?thesis
    proof cases
      case below
      with Curried show ?thesis by (simp add: call_below del: call.simps)
    next
      case exact
      with Curried IH [of fn ?all "invoked fn ?all w" "invoked fn ?all w'"]
      show ?thesis by (simp add: call_exact del: call.simps)
    next
      case above
      let ?first = "slice ?all 0 (Some arity)"
      let ?rest = "slice ?all arity None"
      let ?c = "call h k fn ?first (invoked fn ?first w)"
      let ?c' = "call h k fn ?first (invoked fn ?first w')"
      have e: "map_option fst ?c = map_option fst ?c'" by (rule IH)
      have "map_option fst (unrollInvoke h k fn arity ?all w) =
            map_option fst (unrollInvoke h k fn arity ?all w')"
      proof (cases ?c)
        case None
        with e have "?c' = None" by simp
        with None show ?thesis by (simp add: Let_def)
      next
        case (Some p)
        obtain r1 w1 where p: "p = (r1, w1)" by (cases p)
        from e Some p obtain w1' where c': "?c' = Some (r1, w1')"
          by (cases ?c') auto
        show ?thesis
        proof (cases r1)
          case (Inl e1)
          with Some p c' show ?thesis by (simp add: Let_def)
        next
          case (Inr V)
          with Some p c' IH [of V ?rest "invoked V ?rest w1" "invoked V ?rest w1'"]
          show ?thesis by (simp add: Let_def)
        qed
      qed
      with above Curried show ?thesis by (simp add: call_above del: call.simps unrollInvoke.simps)
    qed
  qed
qed

lemma pure_host_callSeq:
  "pure_host h \<Longrightarrow>
   map_option fst (callSeq h k v Ns w) = map_option fst (callSeq h k v Ns w')"
proof (induction Ns arbitrary: v w w')
  case Nil
  then show ?case by simp
next
  case (Cons N Ns)
  let ?c = "call h k v N w"
  let ?c' = "call h k v N w'"
  have e: "map_option fst ?c = map_option fst ?c'"
    using Cons.prems by (rule pure_host_call)
  show ?case
  proof (cases ?c)
    case None
    with e have "?c' = None" by simp
    with None show ?thesis by simp
  next
    case (Some p)
    obtain r1 w1 where p: "p = (r1, w1)" by (cases p)
    from e Some p obtain w1' where c': "?c' = Some (r1, w1')"
      by (cases ?c') auto
    show ?thesis
    proof (cases r1)
      case (Inl e1)
      with Some p c' show ?thesis by simp
    next
      case (Inr V)
      with Some p c' Cons.IH [OF Cons.prems, of V w1 w1'] show ?thesis by simp
    qed
  qed
qed

lemma sample_host_pure: "pure_host sample_host"
  unfolding pure_host_def
proof (intro allI)
  fix f args s s'
  show "fst (sample_host f args s) = fst (sample_host f args s')"
    by (cases f) (simp_all split: list.splits val.splits)
qed

text \<open>
  A call of a closure that returns or throws has invoked something, unless it took the
  branch \<^verbatim>\<open>argCount < arity\<close>.
\<close>

lemma unrollInvoke_invokes:
  "unrollInvoke h k fn arity args w = Some (r, w') \<Longrightarrow>
   \<exists>c xs ys. trace w' = trace w @ (c, xs) # ys"
proof -
  assume u: "unrollInvoke h k fn arity args w = Some (r, w')"
  let ?first = "slice args 0 (Some arity)"
  let ?rest = "slice args arity None"
  show ?thesis
  proof (cases "call h k fn ?first (invoked fn ?first w)")
    case None
    with u show ?thesis by (simp add: Let_def)
  next
    case (Some p)
    obtain r1 w1 where p: "p = (r1, w1)" by (cases p)
    from trace_grows Some p obtain ys where ys: "trace w1 = trace (invoked fn ?first w) @ ys"
      by blast
    show ?thesis
    proof (cases r1)
      case (Inl e)
      with u Some p have "w' = w1" by (simp add: Let_def)
      with ys show ?thesis by auto
    next
      case (Inr V)
      with u Some p have "call h k V ?rest (invoked V ?rest w1) = Some (r, w')"
        by (simp add: Let_def)
      from trace_grows [OF this] obtain zs where "trace w' = trace (invoked V ?rest w1) @ zs"
        by blast
      with ys show ?thesis by auto
    qed
  qed
qed

lemma call_quiet:
  assumes c: "call h k (Curried arity fn A) N w = Some (r, w')"
    and q: "trace w' = trace w"
  shows "int (length A + length N) < arity \<and> r = Inr (Curried arity fn (A @ N)) \<and> w' = w"
proof -
  from c obtain j where k: "k = Suc j" using call_Some_fuel by blast
  consider (below) "int (length A + length N) < arity"
    | (exact) "int (length A + length N) = arity"
    | (above) "arity < int (length A + length N)"
    by linarith
  then show ?thesis
  proof cases
    case below
    with c k show ?thesis by simp
  next
    case exact
    with c k have "call h j fn (A @ N) (invoked fn (A @ N) w) = Some (r, w')"
      by (simp add: Let_def)
    from trace_grows [OF this] q show ?thesis by simp
  next
    case above
    with c k have "unrollInvoke h j fn arity (A @ N) w = Some (r, w')"
      by (simp add: Let_def del: unrollInvoke.simps)
    from unrollInvoke_invokes [OF this] q show ?thesis by simp
  qed
qed

text \<open>
  Every closure a caller holds as still waiting is a closure over the same arity and
  target, and its accumulator is empty or strictly shorter than the arity.
\<close>

lemma exposed_shape:
  "exposed h arity fn c \<Longrightarrow> \<exists>A. c = Curried arity fn A \<and> (A = [] \<or> int (length A) < arity)"
proof (induction rule: exposed.induct)
  case created
  show ?case by (simp add: curry_js_def curried_def)
next
  case (resumed c k N w c' w')
  then obtain A where c: "c = Curried arity fn A" by blast
  from call_quiet [of h k arity fn A N w "Inr c'" w'] resumed.hyps c
  show ?case by simp
qed

text \<open>The two branches of \<^verbatim>\<open>copyDocumentation\<close>.\<close>

lemma Object_assign_two: "Object_assign Map.empty [a, b] = a ++ b"
  by (simp add: Object_assign_def)

lemma copyDocumentation_off:
  "env' ''FOLKTALE_DOCS'' ''false'' = ''false'' \<Longrightarrow>
   copyDocumentation env' source target extensions = ((), target)"
  by (simp add: copyDocumentation_def)

lemma copyDocumentation_on:
  "env' ''FOLKTALE_DOCS'' ''false'' \<noteq> ''false'' \<Longrightarrow>
   copyDocumentation env' source target extensions =
     ((), target\<lparr>mm := Some ((case mm source of None \<Rightarrow> Map.empty | Some d \<Rightarrow> d) ++
                           (case extensions of None \<Rightarrow> Map.empty | Some e \<Rightarrow> e))\<rparr>)"
  by (simp add: copyDocumentation_def Object_assign_two)

text \<open>The store engine: the closure's body and \<^verbatim>\<open>unrollInvoke\<close> with the allocations done.\<close>

lemma callS_closure:
  "a < length H \<Longrightarrow>
   callS h (Suc k) (RClosure arity fn a) xs (H, s) =
     (if int (length (H ! a @ xs)) < arity
      then Some (Inr (RClosure arity fn (Suc (length H))), H @ [xs, H ! a @ xs], s)
      else if int (length (H ! a @ xs)) = arity
      then callS h k fn (H ! a @ xs) (H @ [xs, H ! a @ xs], s)
      else unrollInvokeS h k fn arity (Suc (length H)) (H @ [xs, H ! a @ xs], s))"
  by (simp add: new_array_def concat_array_def Let_def nth_append del: unrollInvokeS.simps)

lemma unrollInvokeS_eq:
  "a < length H \<Longrightarrow>
   unrollInvokeS h k fn arity a (H, s) =
     (case callS h k fn (slice (H ! a) 0 (Some arity))
             (H @ [slice (H ! a) 0 (Some arity), slice (H ! a) arity None], s) of
        None \<Rightarrow> None
      | Some (Inl e, st) \<Rightarrow> Some (Inl e, st)
      | Some (Inr v, H3, s3) \<Rightarrow> callS h k v (H3 ! Suc (length H)) (H3, s3))"
  by (simp add: new_array_def slice_array_def Let_def nth_append split: option.split sum.split prod.split)

lemma callS_Some_fuel: "callS h k v xs st = Some x \<Longrightarrow> \<exists>j. k = Suc j"
  by (cases k; cases st) simp_all

text \<open>A call only adds arrays at the end of the store.\<close>

lemma callS_extends:
  "callS h k v xs (H, s) = Some (r, H', s') \<Longrightarrow> \<exists>ys. H' = H @ ys"
proof (induction k arbitrary: v xs H s r H' s')
  case 0
  then show ?case by simp
next
  case (Suc k)
  show ?case
  proof (cases v)
    case RUndefined
    with Suc.prems show ?thesis by simp
  next
    case (RNum n)
    with Suc.prems show ?thesis by simp
  next
    case (RNative f)
    with Suc.prems show ?thesis by (auto split: prod.splits)
  next
    case (RClosure arity fn a)
    show ?thesis
    proof (cases "a < length H")
      case False
      with Suc.prems RClosure show ?thesis by simp
    next
      case True
      let ?all = "H ! a @ xs"
      let ?H2 = "H @ [xs, ?all]"
      note c = Suc.prems [unfolded RClosure callS_closure [OF True]]
      consider (below) "int (length ?all) < arity"
        | (exact) "int (length ?all) = arity"
        | (above) "arity < int (length ?all)"
        by linarith
      then show ?thesis
      proof cases
        case below
        with c show ?thesis by auto
      next
        case exact
        with c have "callS h k fn ?all (?H2, s) = Some (r, H', s')" by simp
        from Suc.IH [OF this] show ?thesis by auto
      next
        case above
        let ?first = "slice ?all 0 (Some arity)"
        let ?second = "slice ?all arity None"
        let ?H4 = "?H2 @ [?first, ?second]"
        have l: "Suc (length H) < length ?H2" by simp
        have n: "?H2 ! Suc (length H) = ?all" by (simp add: nth_append)
        from above c have u: "unrollInvokeS h k fn arity (Suc (length H)) (?H2, s) = Some (r, H', s')"
          by simp
        note u' = u [unfolded unrollInvokeS_eq [OF l] n]
        show ?thesis
        proof (cases "callS h k fn ?first (?H4, s)")
          case None
          with u' show ?thesis by simp
        next
          case (Some p)
          obtain r1 H5 s5 where p: "p = (r1, H5, s5)" by (cases p)
          from Suc.IH Some p obtain ys where ys: "H5 = ?H4 @ ys" by blast
          show ?thesis
          proof (cases r1)
            case (Inl e)
            with u' Some p have "H' = H5" by simp
            with ys show ?thesis by simp
          next
            case (Inr V)
            with u' Some p have "callS h k V (H5 ! Suc (length ?H2)) (H5, s5) = Some (r, H', s')"
              by simp
            from Suc.IH [OF this] obtain zs where "H' = H5 @ zs" by blast
            with ys show ?thesis by simp
          qed
        qed
      qed
    qed
  qed
qed

lemma rep_extend: "rep H x v \<Longrightarrow> rep (H @ zs) x v"
proof (induction rule: rep.induct)
  case (rep_Closure fn fn' a A arity)
  then have "list_all2 (rep (H @ zs)) (H ! a) A"
    by (auto elim: list_all2_mono)
  with rep_Closure have "list_all2 (rep (H @ zs)) ((H @ zs) ! a) A"
    by (simp add: nth_append)
  with rep_Closure show ?case by (simp add: rep.rep_Closure)
qed (simp_all add: rep.intros)

lemma rep_list_extend: "list_all2 (rep H) xs vs \<Longrightarrow> list_all2 (rep (H @ zs)) xs vs"
  by (erule list_all2_mono) (rule rep_extend)

lemma list_all2_slice:
  assumes a: "list_all2 P xs ys"
  shows "list_all2 P (slice xs i j) (slice ys i j)"
proof -
  from a have l: "length xs = length ys" by (rule list_all2_lengthD)
  show ?thesis
    unfolding slice_def Let_def l by (intro list_all2_takeI list_all2_dropI a)
qed

text \<open>
  The store engine and the engine on plain values do the same thing: from corresponding
  closures and arguments they reach corresponding outcomes, with the same fuel.
\<close>

lemma callS_refines:
  assumes ag: "hosts_agree hs h"
  shows "rep H v v' \<Longrightarrow> list_all2 (rep H) xs ys \<Longrightarrow>
         outcome_rep (callS hs k v xs (H, host w)) (call h k v' ys w)"
proof (induction k arbitrary: H v v' xs ys w)
  case 0
  show ?case by (simp add: outcome_rep_def)
next
  case (Suc k)
  from Suc.prems(1) show ?case
  proof (cases rule: rep.cases)
    case rep_Undefined
    then show ?thesis by (simp add: outcome_rep_def rep_result_def)
  next
    case (rep_Num n)
    then show ?thesis by (simp add: outcome_rep_def rep_result_def)
  next
    case (rep_Native f)
    from ag Suc.prems(2)
    have "snd (hs f xs (host w)) = snd (h f ys (host w))"
      and "rep_result H (fst (hs f xs (host w))) (fst (h f ys (host w)))"
      unfolding hosts_agree_def by blast+
    with rep_Native show ?thesis
      by (simp add: outcome_rep_def call_Native case_prod_beta del: call.simps)
  next
    case (rep_Closure fn fn' a A arity)
    let ?all = "H ! a @ xs"
    let ?all' = "A @ ys"
    let ?H2 = "H @ [xs, ?all]"
    from rep_Closure Suc.prems(2) have rel: "list_all2 (rep H) ?all ?all'"
      by (simp add: list_all2_appendI)
    then have len: "length ?all = length ?all'" by (rule list_all2_lengthD)
    then have len': "length (H ! a) + length xs = length A + length ys" by simp
    from rel have rel2: "list_all2 (rep ?H2) ?all ?all'" by (rule rep_list_extend)
    from rep_Closure have fn2: "rep ?H2 fn fn'" by (simp add: rep_extend)
    note cS = callS_closure [OF rep_Closure(4), of hs k arity fn xs "host w"]
    consider (below) "int (length ?all) < arity"
      | (exact) "int (length ?all) = arity"
      | (above) "arity < int (length ?all)"
      by linarith
    then show ?thesis
    proof cases
      case below
      have "rep ?H2 (RClosure arity fn (Suc (length H))) (Curried arity fn' ?all')"
        using fn2 rel2 by (intro rep.rep_Closure) (simp_all add: nth_append)
      with below len' rep_Closure show ?thesis
        unfolding rep_Closure(1,2) cS
        by (simp add: outcome_rep_def rep_result_def)
    next
      case exact
      from Suc.IH [OF fn2 rel2, of "invoked fn' ?all' w"] exact len' show ?thesis
        unfolding rep_Closure(1,2) cS by (simp add: Let_def)
    next
      case above
      let ?first = "slice ?all 0 (Some arity)"
      let ?second = "slice ?all arity None"
      let ?first' = "slice ?all' 0 (Some arity)"
      let ?second' = "slice ?all' arity None"
      let ?H4 = "?H2 @ [?first, ?second]"
      let ?w1 = "invoked fn' ?first' w"
      have l: "Suc (length H) < length ?H2" by simp
      have n: "?H2 ! Suc (length H) = ?all" by (simp add: nth_append)
      note uS = unrollInvokeS_eq [OF l, of hs k fn arity "host w", unfolded n]
      have lhs: "callS hs (Suc k) v xs (H, host w) =
                 unrollInvokeS hs k fn arity (Suc (length H)) (?H2, host w)"
        using above unfolding rep_Closure(1) cS by simp
      from above len' have ab: "arity < int (length A + length ys)" by simp
      have rhs: "call h (Suc k) v' ys w = unrollInvoke h k fn' arity ?all' w"
        unfolding rep_Closure(2) by (rule call_above [OF ab])
      have fn4: "rep ?H4 fn fn'" using fn2 by (rule rep_extend)
      have "list_all2 (rep ?H2) ?first ?first'" using rel2 by (rule list_all2_slice)
      then have rf: "list_all2 (rep ?H4) ?first ?first'" by (rule rep_list_extend)
      have o1: "outcome_rep (callS hs k fn ?first (?H4, host ?w1)) (call h k fn' ?first' ?w1)"
        by (rule Suc.IH [OF fn4 rf])
      have uV: "unrollInvoke h k fn' arity ?all' w =
          (case call h k fn' ?first' ?w1 of
             None \<Rightarrow> None
           | Some (Inl e, w') \<Rightarrow> Some (Inl e, w')
           | Some (Inr v, w') \<Rightarrow> call h k v ?second' (invoked v ?second' w'))"
        by (simp add: Let_def del: call.simps)
      have "outcome_rep (unrollInvokeS hs k fn arity (Suc (length H)) (?H2, host w))
                        (unrollInvoke h k fn' arity ?all' w)"
      proof (cases "callS hs k fn ?first (?H4, host w)")
        case None
        with o1 have "call h k fn' ?first' ?w1 = None" by (simp add: outcome_rep_def)
        with None show ?thesis unfolding uS uV
          by (simp add: outcome_rep_def del: call.simps callS.simps)
      next
        case (Some p)
        obtain r1 H5 s5 where p: "p = (r1, H5, s5)" by (cases p)
        from o1 Some p obtain r1' w5 where c1: "call h k fn' ?first' ?w1 = Some (r1', w5)"
          and h5: "host w5 = s5" and rr: "rep_result H5 r1 r1'"
          by (auto simp: outcome_rep_def)
        from Some p have "callS hs k fn ?first (?H4, host w) = Some (r1, H5, s5)" by simp
        from callS_extends [OF this] obtain zs where zs: "H5 = ?H4 @ zs" ..
        show ?thesis
        proof (cases r1)
          case (Inl e)
          with rr obtain e' where "r1' = Inl e'"
            by (auto simp: rep_result_def split: rerror.splits)
          with Inl Some p c1 h5 rr show ?thesis
            unfolding uS uV by (simp add: outcome_rep_def del: call.simps callS.simps)
        next
          case (Inr V)
          with rr obtain V' where V': "r1' = Inr V'" and rV: "rep H5 V V'"
            by (auto simp: rep_result_def)
          have n5: "H5 ! Suc (length ?H2) = ?second" unfolding zs by (simp add: nth_append)
          have "list_all2 (rep ?H2) ?second ?second'" using rel2 by (rule list_all2_slice)
          then have "list_all2 (rep ?H4) ?second ?second'" by (rule rep_list_extend)
          then have rs: "list_all2 (rep H5) ?second ?second'"
            unfolding zs by (rule rep_list_extend)
          from Suc.IH [OF rV rs, of "invoked V' ?second' w5"] h5
          have "outcome_rep (callS hs k V ?second (H5, s5))
                  (call h k V' ?second' (invoked V' ?second' w5))" by simp
          with Inr V' Some p c1 n5 show ?thesis
            unfolding uS uV by (simp del: call.simps callS.simps)
        qed
      qed
      with lhs rhs show ?thesis by (simp only:)
    qed
  qed
qed

lemma rep_RUndefined [simp]: "rep H RUndefined y \<longleftrightarrow> y = Undefined"
  by (auto elim: rep.cases intro: rep.intros)

lemma rep_RNum [simp]: "rep H (RNum n) y \<longleftrightarrow> y = Num n"
  by (auto elim: rep.cases intro: rep.intros)

lemma rep_RNative [simp]: "rep H (RNative f) y \<longleftrightarrow> y = Native f"
  by (auto elim: rep.cases intro: rep.intros)

lemma rep_RClosure:
  "rep H (RClosure arity fn a) y \<longleftrightarrow>
   (\<exists>fn' A. y = Curried arity fn' A \<and> rep H fn fn' \<and> a < length H \<and> list_all2 (rep H) (H ! a) A)"
  by (auto elim: rep.cases intro: rep.intros)

lemma sample_hosts_agree: "hosts_agree sample_hostS sample_host"
  unfolding hosts_agree_def
proof (intro allI impI)
  fix H :: "sample store" and f xs ys and s :: nat
  assume "list_all2 (rep H) xs ys"
  then show "snd (sample_hostS f xs s) = snd (sample_host f ys s) \<and>
             rep_result H (fst (sample_hostS f xs s)) (fst (sample_host f ys s))"
    by (cases f)
       (auto simp: rep_result_def list_all2_Cons1 rep_RClosure
             split: list.splits rval.splits)
qed

lemma rep_Num_left: "rep H x (Num n) \<Longrightarrow> x = RNum n"
  by (erule rep.cases) simp_all

lemma store_frame:
  assumes "callS hs k v xs (H, s) = Some (r, Ha, sa)" and "b < length H"
  shows "b < length Ha \<and> Ha ! b = H ! b"
proof -
  from callS_extends [OF assms(1)] obtain zs where "Ha = H @ zs" ..
  with assms(2) show ?thesis by (simp add: nth_append)
qed

lemma store_reuse:
  assumes "a < length H"
    and "callS hs k (RClosure arity fn a) M (H, s) = Some (r, Ha, sa)"
    and "int (length (H ! a) + length N) = arity"
  shows "callS hs (Suc j) (RClosure arity fn a) N (Ha, sa) =
         callS hs j fn (H ! a @ N) (Ha @ [N, H ! a @ N], sa)"
proof -
  from store_frame [OF assms(2,1)] have l: "a < length Ha" and e: "Ha ! a = H ! a"
    by simp_all
  from assms(3) show ?thesis
    unfolding callS_closure [OF l] e by simp
qed

text \<open>
  With pure host functions, a closure called with the same arguments in a store and in
  any later store returns within the same fuel, and the two results stand for the same
  value.
\<close>

lemma store_deterministic:
  assumes ag: "hosts_agree hs h" and pu: "pure_host h"
    and p: "rep H p v" and xs: "list_all2 (rep H) xs ys"
  shows "(callS hs k p xs (H, s) = None \<longleftrightarrow> callS hs k p xs (H @ zs, sb) = None) \<and>
         (callS hs k p xs (H, s) = Some (ra, Hc, sc) \<longrightarrow>
          callS hs k p xs (H @ zs, sb) = Some (rb, Hd, sd) \<longrightarrow>
            (\<exists>x. rep_result Hc ra x \<and> rep_result Hd rb x) \<and>
            (ra = Inr (RNum n) \<longrightarrow> rb = Inr (RNum n)))"
proof -
  let ?w = "\<lparr>trace = [], host = s\<rparr>"
  let ?wb = "\<lparr>trace = [], host = sb\<rparr>"
  let ?c = "call h k v ys ?w"
  let ?cb = "call h k v ys ?wb"
  let ?S = "callS hs k p xs (H, s)"
  let ?Sb = "callS hs k p xs (H @ zs, sb)"
  from callS_refines [OF ag p xs, of k ?w]
  have o: "outcome_rep ?S ?c" by simp
  have pb: "rep (H @ zs) p v" using p by (rule rep_extend)
  have xsb: "list_all2 (rep (H @ zs)) xs ys" using xs by (rule rep_list_extend)
  from callS_refines [OF ag pb xsb, of k ?wb]
  have ob: "outcome_rep ?Sb ?cb" by simp
  from pu have e: "map_option fst ?c = map_option fst ?cb" by (rule pure_host_call)
  have n1: "?S = None \<longleftrightarrow> ?c = None"
    using o unfolding outcome_rep_def by (cases ?S) auto
  have n2: "?Sb = None \<longleftrightarrow> ?cb = None"
    using ob unfolding outcome_rep_def by (cases ?Sb) auto
  have n3: "?c = None \<longleftrightarrow> ?cb = None"
    using e by (cases ?c; cases ?cb) simp_all
  have none: "?S = None \<longleftrightarrow> ?Sb = None"
    unfolding n1 n2 by (rule n3)
  have some: "(\<exists>x. rep_result Hc ra x \<and> rep_result Hd rb x) \<and>
              (ra = Inr (RNum n) \<longrightarrow> rb = Inr (RNum n))"
    if a: "?S = Some (ra, Hc, sc)" and b: "?Sb = Some (rb, Hd, sd)"
  proof -
    from o obtain x w where c: "?c = Some (x, w)" and rx: "rep_result Hc ra x"
      unfolding a outcome_rep_def by auto
    from ob obtain y wb where cb: "?cb = Some (y, wb)" and ry: "rep_result Hd rb y"
      unfolding b outcome_rep_def by auto
    from e have "x = y" unfolding c cb by simp
    with rx ry have both: "rep_result Hc ra x \<and> rep_result Hd rb x" by simp
    have num: "ra = Inr (RNum n) \<longrightarrow> rb = Inr (RNum n)"
    proof
      assume "ra = Inr (RNum n)"
      with both have "x = Inr (Num n)" by (simp add: rep_result_def)
      with both have "rep_result Hd rb (Inr (Num n))" by simp
      then show "rb = Inr (RNum n)"
        by (cases rb) (auto simp: rep_result_def dest: rep_Num_left split: rerror.splits)
    qed
    show ?thesis
    proof (rule conjI)
      from both show "\<exists>x. rep_result Hc ra x \<and> rep_result Hd rb x" by (rule exI)
    next
      show "ra = Inr (RNum n) \<longrightarrow> rb = Inr (RNum n)" by (rule num)
    qed
  qed
  show ?thesis
  proof (rule conjI)
    show "?S = None \<longleftrightarrow> ?Sb = None" by (rule none)
  next
    show "?S = Some (ra, Hc, sc) \<longrightarrow> ?Sb = Some (rb, Hd, sd) \<longrightarrow>
            (\<exists>x. rep_result Hc ra x \<and> rep_result Hd rb x) \<and>
            (ra = Inr (RNum n) \<longrightarrow> rb = Inr (RNum n))"
      by (intro impI) (rule some)
  qed
qed

section \<open>The engine's claims\<close>

text \<open>
  Claim C1. For every arity and every target \<open>fn\<close>, a single call of
  \<open>curry_js arity fn\<close> with exactly \<open>arity\<close> arguments is one invocation of \<open>fn\<close>
  with those arguments, in order, in the world of the call, and returns what that
  invocation returns (first conjunct). When the target is a host function \<open>f\<close> the
  call returns with any fuel of two or more: the result is \<open>f\<close>'s result, the trace has
  grown by the one entry \<open>(f, args)\<close> and the host's state is the state after one run of
  \<open>f\<close> (second conjunct). For arity 0 the call with no arguments runs \<open>f\<close> on no
  arguments (third conjunct).
\<close>

theorem curry_exact_arity:
  "int (length args) = arity \<Longrightarrow>
   call h (Suc k) (curry_js arity fn) args w = call h k fn args (invoked fn args w) \<and>
   call h (Suc (Suc k)) (curry_js arity (Native f)) args w =
     Some (fst (h f args (host w)),
           \<lparr>trace = trace w @ [(Native f, args)], host = snd (h f args (host w))\<rparr>) \<and>
   (arity = 0 \<longrightarrow>
      call h (Suc (Suc k)) (curry_js arity (Native f)) [] w =
        Some (fst (h f [] (host w)),
              \<lparr>trace = trace w @ [(Native f, [])], host = snd (h f [] (host w))\<rparr>))"
  by (simp add: curry_js_def curried_def call_Native Let_def del: call.simps(4))

theorem curry_exact_arity_witness:
  "int (length [Num 1, Num 2 :: sample val]) = 2 \<and>
   call sample_host 2 (curry_js 2 (Native Add)) [Num 1, Num 2] world0 =
     Some (Inr (Num 3), \<lparr>trace = [(Native Add, [Num 1, Num 2])], host = 1\<rparr>)"
  using curry_exact_arity [of "[Num 1, Num 2]" 2 sample_host 0 "Native Add" world0 Add]
  by (simp add: world0_def numeral_2_eq_2)

text \<open>
  Claim C3. A closure holding the accumulator \<open>A\<close>, called with \<open>N\<close> where
  \<open>length A + length N < arity\<close>, returns the closure of the same arity and target
  holding \<open>A @ N\<close>. The world is returned as it was: no entry is added to the trace and
  the host's state is untouched, so the target is not invoked. One unit of fuel is enough.
\<close>

theorem curried_suspends:
  "int (length A + length N) < arity \<Longrightarrow>
   call h (Suc k) (curried arity fn A) N w = Some (Inr (curried arity fn (A @ N)), w)"
  by (simp add: curried_def)

theorem curried_suspends_witness:
  "int (length [Num 1 :: sample val] + length [Num 2 :: sample val]) < 3 \<and>
   call sample_host 1 (curried 3 (Native Sum3) [Num 1]) [Num 2] world0 =
     Some (Inr (curried 3 (Native Sum3) [Num 1, Num 2]), world0)"
  using curried_suspends [of "[Num 1]" "[Num 2]" 3 sample_host 0 "Native Sum3" world0]
  by simp

text \<open>
  Claim C4. A closure of arity \<open>arity \<ge> 0\<close> holding \<open>A\<close>, called with \<open>N\<close> where
  \<open>length A + length N > arity\<close>: with \<open>First\<close> the first \<open>arity\<close> elements of \<open>A @ N\<close>
  and \<open>Rest\<close> the others, the call is one invocation of the target with \<open>First\<close>,
  then, if that returned a value \<open>V\<close>, one invocation of \<open>V\<close> with all of \<open>Rest\<close>, whose
  outcome is the outcome of the call (second conjunct; \<open>First\<close> has exactly \<open>arity\<close>
  elements by the first). Nothing else is invoked and \<open>Rest\<close> is not split again: when
  the target is a host function \<open>f\<close> that returns a host function \<open>g\<close>, the call
  returns \<open>g\<close>'s result on \<open>Rest\<close> and the trace has grown by exactly the two entries
  \<open>(f, First)\<close> and \<open>(g, Rest)\<close> (third conjunct).
\<close>

theorem curried_overflow:
  "0 \<le> arity \<Longrightarrow> arity < int (length A + length N) \<Longrightarrow>
   int (length (take (nat arity) (A @ N))) = arity \<and>
   call h (Suc k) (curried arity fn A) N w =
     (case call h k fn (take (nat arity) (A @ N)) (invoked fn (take (nat arity) (A @ N)) w) of
        None \<Rightarrow> None
      | Some (Inl e, w') \<Rightarrow> Some (Inl e, w')
      | Some (Inr V, w') \<Rightarrow>
          call h k V (drop (nat arity) (A @ N)) (invoked V (drop (nat arity) (A @ N)) w')) \<and>
   (h f (take (nat arity) (A @ N)) (host w) = (Inr (Native g), s) \<longrightarrow>
      call h (Suc (Suc k)) (curried arity (Native f) A) N w =
        Some (fst (h g (drop (nat arity) (A @ N)) s),
              \<lparr>trace = trace w @ [(Native f, take (nat arity) (A @ N)),
                                  (Native g, drop (nat arity) (A @ N))],
               host = snd (h g (drop (nat arity) (A @ N)) s)\<rparr>))"
  by (simp add: curried_def call_above unrollInvoke_split call_Native
           del: call.simps unrollInvoke.simps)

theorem curried_overflow_witness:
  "(0::int) \<le> 2 \<and> 2 < int (length [Num 1 :: sample val] + length [Num 2, Num 3 :: sample val]) \<and>
   call sample_host 2 (curried 2 (Native AddThen) [Num 1]) [Num 2, Num 3] world0 =
     Some (Inr (Num 6),
           \<lparr>trace = [(Native AddThen, [Num 1, Num 2]), (Native (AddThenClosure 1 2), [Num 3])],
            host = 2\<rparr>)"
  using curried_overflow [where arity = 2 and A = "[Num 1]" and N = "[Num 2, Num 3]"
      and h = sample_host and f = AddThen and w = world0 and g = "AddThenClosure 1 2"
      and s = 1 and k = 0 and fn = "Native AddThen"]
  by (simp add: world0_def numeral_2_eq_2)

text \<open>
  Claim C2. For every arity, target and argument sequence of length \<open>arity\<close>, cut into
  the argument lists \<open>Ns\<close> of successive calls (\<open>concat Ns\<close> is the sequence): calling
  \<open>curry_js arity fn\<close> with the lists of \<open>Ns\<close> one after the other gives what the single
  call with \<open>concat Ns\<close> gives, result and world, and both are the one invocation of
  \<open>fn\<close> with \<open>concat Ns\<close>. The calls are calls to the curried form: every call is
  made on a closure of the engine, which, the lengths adding up to \<open>arity\<close>, says that
  \<open>Ns\<close> is a single list or its last list is not empty (after \<^verbatim>\<open>c(1, 2)\<close> has run
  the target, a further \<^verbatim>\<open>()\<close> would be a call on the target's result). Lists
  before the last may be empty.
\<close>

theorem curry_split_calls:
  "Ns \<noteq> [] \<Longrightarrow> length Ns = 1 \<or> last Ns \<noteq> [] \<Longrightarrow> int (length (concat Ns)) = arity \<Longrightarrow>
   callSeq h (Suc k) (curry_js arity fn) Ns w =
     call h (Suc k) (curry_js arity fn) (concat Ns) w \<and>
   callSeq h (Suc k) (curry_js arity fn) Ns w =
     call h k fn (concat Ns) (invoked fn (concat Ns) w)"
  using callSeq_accumulates [of Ns "[]" arity h k fn w]
        call_exact [of "[]" "concat Ns" arity h k fn w]
  by (simp add: curry_js_def curried_def del: call.simps callSeq.simps)

theorem curry_split_calls_witness:
  "[[Num 1], [Num 2 :: sample val]] \<noteq> [] \<and>
   (length [[Num 1], [Num 2 :: sample val]] = 1 \<or> last [[Num 1], [Num 2 :: sample val]] \<noteq> []) \<and>
   int (length (concat [[Num 1], [Num 2 :: sample val]])) = 2 \<and>
   callSeq sample_host 2 (curry_js 2 (Native Add)) [[Num 1], [Num 2]] world0 =
     call sample_host 2 (curry_js 2 (Native Add)) [Num 1, Num 2] world0 \<and>
   callSeq sample_host 2 (curry_js 2 (Native Add)) [[Num 1], [Num 2]] world0 =
     Some (Inr (Num 3), \<lparr>trace = [(Native Add, [Num 1, Num 2])], host = 1\<rparr>)"
  using curry_split_calls [where Ns = "[[Num 1], [Num 2]]" and arity = 2 and h = sample_host
      and k = 1 and fn = "Native Add" and w = world0]
  by (simp add: world0_def invoked_def curry_js_def curried_def numeral_2_eq_2)

text \<open>
  Claim C5. For a closure \<open>curried arity fn A\<close> called with \<open>N\<close>:
  \<^item> exact arity: what the invocation of \<open>fn\<close> throws, the call throws, with the world
    as the invocation left it;
  \<^item> overflow: what the invocation of \<open>fn\<close> with \<open>First\<close> throws, the call throws;
  \<^item> overflow, \<open>fn\<close> returned \<open>V\<close>: if \<open>V\<close> is not callable the call throws
    \<open>NotCallable\<close>, in the world after \<open>fn\<close> ran, at the invocation of \<open>V\<close> with
    \<open>Rest\<close>; and what the invocation of \<open>V\<close> throws, the call throws;
  \<^item> nothing is checked beforehand: for every arity and every target, callable or not,
    a call with fewer than \<open>arity\<close> arguments returns the next closure;
  \<^item> and whenever a call throws, the engine has invoked something during it: the
    trace has grown by at least one entry.
  The error and the world are handed on as they are in every case.
\<close>

theorem failures_propagate:
  "(int (length A + length N) = arity \<longrightarrow>
      call h k fn (A @ N) (invoked fn (A @ N) w) = Some (Inl e, w') \<longrightarrow>
      call h (Suc k) (curried arity fn A) N w = Some (Inl e, w')) \<and>
   (0 \<le> arity \<longrightarrow> arity < int (length A + length N) \<longrightarrow>
      call h k fn (take (nat arity) (A @ N)) (invoked fn (take (nat arity) (A @ N)) w)
        = Some (Inl e, w') \<longrightarrow>
      call h (Suc k) (curried arity fn A) N w = Some (Inl e, w')) \<and>
   (0 \<le> arity \<longrightarrow> arity < int (length A + length N) \<longrightarrow>
      call h k fn (take (nat arity) (A @ N)) (invoked fn (take (nat arity) (A @ N)) w)
        = Some (Inr V, w') \<longrightarrow>
      (\<not> callable V \<longrightarrow>
         call h (Suc k) (curried arity fn A) N w =
           Some (Inl NotCallable, invoked V (drop (nat arity) (A @ N)) w')) \<and>
      (call h k V (drop (nat arity) (A @ N)) (invoked V (drop (nat arity) (A @ N)) w')
         = Some (Inl e, w'') \<longrightarrow>
         call h (Suc k) (curried arity fn A) N w = Some (Inl e, w''))) \<and>
   (int (length N) < arity \<longrightarrow>
      call h (Suc k) (curry_js arity fn) N w = Some (Inr (curried arity fn N), w)) \<and>
   (call h (Suc k) (curried arity fn A) N w = Some (Inl e, w') \<longrightarrow>
      (\<exists>c args ys. trace w' = trace w @ (c, args) # ys))"
proof (intro conjI impI)
  assume "int (length A + length N) = arity"
    and "call h k fn (A @ N) (invoked fn (A @ N) w) = Some (Inl e, w')"
  then show "call h (Suc k) (curried arity fn A) N w = Some (Inl e, w')"
    by (simp add: curried_def call_exact del: call.simps)
next
  assume "0 \<le> arity" "arity < int (length A + length N)"
    and "call h k fn (take (nat arity) (A @ N)) (invoked fn (take (nat arity) (A @ N)) w)
        = Some (Inl e, w')"
  then show "call h (Suc k) (curried arity fn A) N w = Some (Inl e, w')"
    by (simp add: curried_def call_above unrollInvoke_split del: call.simps unrollInvoke.simps)
next
  assume a: "0 \<le> arity" "arity < int (length A + length N)"
    and t: "call h k fn (take (nat arity) (A @ N)) (invoked fn (take (nat arity) (A @ N)) w)
        = Some (Inr V, w')"
    and nc: "\<not> callable V"
  from t obtain j where "k = Suc j" using call_Some_fuel by blast
  with nc have "call h k V (drop (nat arity) (A @ N)) (invoked V (drop (nat arity) (A @ N)) w')
      = Some (Inl NotCallable, invoked V (drop (nat arity) (A @ N)) w')"
    by (simp add: call_not_callable del: call.simps)
  with a t show "call h (Suc k) (curried arity fn A) N w =
      Some (Inl NotCallable, invoked V (drop (nat arity) (A @ N)) w')"
    by (simp add: curried_def call_above unrollInvoke_split del: call.simps unrollInvoke.simps)
next
  assume "0 \<le> arity" "arity < int (length A + length N)"
    and "call h k fn (take (nat arity) (A @ N)) (invoked fn (take (nat arity) (A @ N)) w)
        = Some (Inr V, w')"
    and "call h k V (drop (nat arity) (A @ N)) (invoked V (drop (nat arity) (A @ N)) w')
         = Some (Inl e, w'')"
  then show "call h (Suc k) (curried arity fn A) N w = Some (Inl e, w'')"
    by (simp add: curried_def call_above unrollInvoke_split del: call.simps unrollInvoke.simps)
next
  assume "int (length N) < arity"
  then show "call h (Suc k) (curry_js arity fn) N w = Some (Inr (curried arity fn N), w)"
    by (simp add: curry_js_def curried_def)
next
  assume f: "call h (Suc k) (curried arity fn A) N w = Some (Inl e, w')"
  let ?all = "A @ N"
  consider (below) "int (length A + length N) < arity"
    | (exact) "int (length A + length N) = arity"
    | (above) "arity < int (length A + length N)"
    by linarith
  then show "\<exists>c args ys. trace w' = trace w @ (c, args) # ys"
  proof cases
    case below
    with f show ?thesis by (simp add: curried_def)
  next
    case exact
    with f have "call h k fn ?all (invoked fn ?all w) = Some (Inl e, w')"
      by (simp add: curried_def Let_def)
    from trace_grows [OF this] show ?thesis by auto
  next
    case above
    let ?first = "slice ?all 0 (Some arity)"
    let ?rest = "slice ?all arity None"
    from above f have u: "unrollInvoke h k fn arity ?all w = Some (Inl e, w')"
      by (simp add: curried_def Let_def del: unrollInvoke.simps)
    show ?thesis
    proof (cases "call h k fn ?first (invoked fn ?first w)")
      case None
      with u show ?thesis by (simp add: Let_def)
    next
      case (Some p)
      obtain r1 w1 where p: "p = (r1, w1)" by (cases p)
      from trace_grows Some p obtain ys where ys: "trace w1 = trace (invoked fn ?first w) @ ys"
        by blast
      show ?thesis
      proof (cases r1)
        case (Inl e1)
        with u Some p have "w' = w1" by (simp add: Let_def)
        with ys show ?thesis by auto
      next
        case (Inr V)
        with u Some p have "call h k V ?rest (invoked V ?rest w1) = Some (Inl e, w')"
          by (simp add: Let_def)
        from trace_grows [OF this] obtain zs where "trace w' = trace (invoked V ?rest w1) @ zs"
          by blast
        with ys show ?thesis by auto
      qed
    qed
  qed
qed

theorem failures_propagate_witness:
  "call sample_host 2 (curried 1 (Native Throw) []) [Num 7] world0 =
     Some (Inl (Thrown (Num 7)), \<lparr>trace = [(Native Throw, [Num 7])], host = 1\<rparr>) \<and>
   call sample_host 2 (curried 1 (Native Throw) []) [Num 7, Num 8] world0 =
     Some (Inl (Thrown (Num 7)), \<lparr>trace = [(Native Throw, [Num 7])], host = 1\<rparr>) \<and>
   \<not> callable (Num 3 :: sample val) \<and>
   call sample_host 2 (curried 2 (Native Add) []) [Num 1, Num 2, Num 3] world0 =
     Some (Inl NotCallable,
           \<lparr>trace = [(Native Add, [Num 1, Num 2]), (Num 3, [Num 3])], host = 1\<rparr>) \<and>
   call sample_host 2 (curried 0 (Native MkThrow) []) [Num 7] world0 =
     Some (Inl (Thrown (Num 7)),
           \<lparr>trace = [(Native MkThrow, []), (Native Throw, [Num 7])], host = 2\<rparr>) \<and>
   call sample_host 2 (curry_js 2 (Num 5)) [Num 1] world0 =
     Some (Inr (curried 2 (Num 5) [Num 1]), world0) \<and>
   (\<exists>c args ys. trace \<lparr>trace = [(Native Throw, [Num 7 :: sample val])], host = 1 :: nat\<rparr> =
      trace world0 @ (c, args) # ys)"
  using failures_propagate [where A = "[]" and N = "[Num 7]" and arity = 1 and h = sample_host
      and k = 1 and fn = "Native Throw" and w = world0 and e = "Thrown (Num 7)"
      and w' = "\<lparr>trace = [(Native Throw, [Num 7])], host = 1\<rparr>"]
    failures_propagate [where A = "[]" and N = "[Num 7, Num 8]" and arity = 1
      and h = sample_host and k = 1 and fn = "Native Throw" and w = world0
      and e = "Thrown (Num 7)" and w' = "\<lparr>trace = [(Native Throw, [Num 7])], host = 1\<rparr>"]
    failures_propagate [where A = "[]" and N = "[Num 1, Num 2, Num 3]" and arity = 2
      and h = sample_host and k = 1 and fn = "Native Add" and w = world0 and V = "Num 3"
      and w' = "\<lparr>trace = [(Native Add, [Num 1, Num 2])], host = 1\<rparr>"]
    failures_propagate [where A = "[]" and N = "[Num 7]" and arity = 0
      and h = sample_host and k = 1 and fn = "Native MkThrow" and w = world0
      and V = "Native Throw" and e = "Thrown (Num 7)"
      and w' = "\<lparr>trace = [(Native MkThrow, [])], host = 1\<rparr>"
      and w'' = "\<lparr>trace = [(Native MkThrow, []), (Native Throw, [Num 7])], host = 2\<rparr>"]
    failures_propagate [where N = "[Num 1]" and arity = 2 and h = sample_host and k = 1
      and fn = "Num 5" and w = world0]
  by (simp add: world0_def invoked_def curry_js_def curried_def callable_def numeral_2_eq_2)

text \<open>
  Claim C6. Determinism, on plain values: with pure host functions a chain of calls
  \<open>c(N1)(N2)...\<close> returns or throws the same thing in every world it is started in, and
  returns within the same fuel (first conjunct).

  Reuse, over the store, where an accumulator is an array that a call could write to:
  when a call of a closure with any arguments \<open>M\<close> has returned, every array that was in
  the store before the call is still there with the same elements, the closure's
  accumulator among them; and a later call of the same closure with \<open>N\<close> that completes
  the arity invokes the target with the accumulator as it was before the first call,
  followed by \<open>N\<close>: nothing of \<open>M\<close> is in it (second conjunct).

  Determinism, over the store: with pure host functions, the same closure called with
  the same arguments in a store and in any later one (after any number of other calls)
  either returns in neither within the fuel or in both, and then the two results stand
  for one and the same value; a result that is a number is the same number (third
  conjunct).
\<close>

theorem curried_reuse:
  "(pure_host h \<longrightarrow>
      map_option fst (callSeq h k c Ns w) = map_option fst (callSeq h k c Ns w')) \<and>
   (a < length H \<longrightarrow> callS hs k (RClosure arity fn a) M (H, s) = Some (r, Ha, sa) \<longrightarrow>
      (\<forall>b < length H. b < length Ha \<and> Ha ! b = H ! b) \<and>
      (int (length (H ! a) + length N) = arity \<longrightarrow>
         callS hs (Suc j) (RClosure arity fn a) N (Ha, sa) =
           callS hs j fn (H ! a @ N) (Ha @ [N, H ! a @ N], sa))) \<and>
   (hosts_agree hs h \<longrightarrow> pure_host h \<longrightarrow> rep H p v \<longrightarrow> list_all2 (rep H) xs ys \<longrightarrow>
      (callS hs k p xs (H, s) = None \<longleftrightarrow> callS hs k p xs (H @ zs, sb) = None) \<and>
      (callS hs k p xs (H, s) = Some (ra, Hc, sc) \<longrightarrow>
       callS hs k p xs (H @ zs, sb) = Some (rb, Hd, sd) \<longrightarrow>
         (\<exists>x. rep_result Hc ra x \<and> rep_result Hd rb x) \<and>
         (ra = Inr (RNum n) \<longrightarrow> rb = Inr (RNum n))))"
proof -
  have one: "pure_host h \<longrightarrow>
      map_option fst (callSeq h k c Ns w) = map_option fst (callSeq h k c Ns w')"
    by (intro impI) (rule pure_host_callSeq)
  have two: "a < length H \<longrightarrow> callS hs k (RClosure arity fn a) M (H, s) = Some (r, Ha, sa) \<longrightarrow>
      (\<forall>b < length H. b < length Ha \<and> Ha ! b = H ! b) \<and>
      (int (length (H ! a) + length N) = arity \<longrightarrow>
         callS hs (Suc j) (RClosure arity fn a) N (Ha, sa) =
           callS hs j fn (H ! a @ N) (Ha @ [N, H ! a @ N], sa))"
  proof (intro impI)
    assume l: "a < length H" and c: "callS hs k (RClosure arity fn a) M (H, s) = Some (r, Ha, sa)"
    show "(\<forall>b < length H. b < length Ha \<and> Ha ! b = H ! b) \<and>
      (int (length (H ! a) + length N) = arity \<longrightarrow>
         callS hs (Suc j) (RClosure arity fn a) N (Ha, sa) =
           callS hs j fn (H ! a @ N) (Ha @ [N, H ! a @ N], sa))"
    proof (rule conjI)
      show "\<forall>b < length H. b < length Ha \<and> Ha ! b = H ! b"
        by (intro allI impI) (rule store_frame [OF c])
    next
      show "int (length (H ! a) + length N) = arity \<longrightarrow>
         callS hs (Suc j) (RClosure arity fn a) N (Ha, sa) =
           callS hs j fn (H ! a @ N) (Ha @ [N, H ! a @ N], sa)"
        by (intro impI) (rule store_reuse [OF l c])
    qed
  qed
  have three: "hosts_agree hs h \<longrightarrow> pure_host h \<longrightarrow> rep H p v \<longrightarrow> list_all2 (rep H) xs ys \<longrightarrow>
      (callS hs k p xs (H, s) = None \<longleftrightarrow> callS hs k p xs (H @ zs, sb) = None) \<and>
      (callS hs k p xs (H, s) = Some (ra, Hc, sc) \<longrightarrow>
       callS hs k p xs (H @ zs, sb) = Some (rb, Hd, sd) \<longrightarrow>
         (\<exists>x. rep_result Hc ra x \<and> rep_result Hd rb x) \<and>
         (ra = Inr (RNum n) \<longrightarrow> rb = Inr (RNum n)))"
    by (intro impI) (rule store_deterministic)
  from one two three show ?thesis by (intro conjI)
qed

theorem curried_reuse_witness:
  "pure_host sample_host \<and> hosts_agree sample_hostS sample_host \<and>
   map_option fst (callSeq sample_host 2 (curry_js 3 (Native Sum3)) [[Num 1], [Num 2, Num 3]] world0)
     = Some (Inr (Num 6)) \<and>
   map_option fst (callSeq sample_host 2 (curry_js 3 (Native Sum3)) [[Num 1], [Num 2, Num 3]]
       \<lparr>trace = [(Native Add, [])], host = 7\<rparr>)
     = Some (Inr (Num 6)) \<and>
   curryS 3 (RNative Sum3) [] = (RClosure 3 (RNative Sum3) 0, [[]]) \<and>
   callS sample_hostS 1 (RClosure 3 (RNative Sum3) 0) [RNum 1] ([[]], 0) =
     Some (Inr (RClosure 3 (RNative Sum3) 2), [[], [RNum 1], [RNum 1]], 0) \<and>
   rep [[], [RNum 1], [RNum 1]] (RClosure 3 (RNative Sum3) 2) (Curried 3 (Native Sum3) [Num 1]) \<and>
   callS sample_hostS 2 (RClosure 3 (RNative Sum3) 2) [RNum 2, RNum 3]
       ([[], [RNum 1], [RNum 1]], 0) =
     Some (Inr (RNum 6),
           [[], [RNum 1], [RNum 1], [RNum 2, RNum 3], [RNum 1, RNum 2, RNum 3]], 1) \<and>
   [[], [RNum 1], [RNum 1], [RNum 2, RNum 3], [RNum 1, RNum 2, RNum 3 :: sample rval]] ! 2
     = [RNum 1] \<and>
   callS sample_hostS 2 (RClosure 3 (RNative Sum3) 2) [RNum 4, RNum 5]
       ([[], [RNum 1], [RNum 1], [RNum 2, RNum 3], [RNum 1, RNum 2, RNum 3]], 1) =
     Some (Inr (RNum 10),
           [[], [RNum 1], [RNum 1], [RNum 2, RNum 3], [RNum 1, RNum 2, RNum 3],
            [RNum 4, RNum 5], [RNum 1, RNum 4, RNum 5]], 2) \<and>
   callS sample_hostS 2 (RClosure 3 (RNative Sum3) 2) [RNum 2, RNum 3]
       ([[], [RNum 1], [RNum 1], [RNum 2, RNum 3], [RNum 1, RNum 2, RNum 3]], 1) =
     Some (Inr (RNum 6),
           [[], [RNum 1], [RNum 1], [RNum 2, RNum 3], [RNum 1, RNum 2, RNum 3],
            [RNum 2, RNum 3], [RNum 1, RNum 2, RNum 3]], 2)"
proof -
  let ?H = "[[], [RNum 1], [RNum 1 :: sample rval]]"
  let ?zs = "[[RNum 2, RNum 3], [RNum 1, RNum 2, RNum 3 :: sample rval]]"
  let ?Ha = "[[], [RNum 1], [RNum 1], [RNum 2, RNum 3], [RNum 1, RNum 2, RNum 3 :: sample rval]]"
  let ?Hd = "[[], [RNum 1], [RNum 1], [RNum 2, RNum 3], [RNum 1, RNum 2, RNum 3],
            [RNum 2, RNum 3], [RNum 1, RNum 2, RNum 3 :: sample rval]]"
  let ?p = "RClosure 3 (RNative Sum3) 2"
  note ev = world0_def invoked_def curry_js_def curried_def curryS_def curriedS_def
    new_array_def concat_array_def slice_array_def Let_def nth_append
    numeral_2_eq_2 numeral_3_eq_3
  note T = curried_reuse [where h = sample_host and k = 2 and c = "curry_js 3 (Native Sum3)"
      and Ns = "[[Num 1], [Num 2, Num 3]]" and w = world0
      and w' = "\<lparr>trace = [(Native Add, [])], host = 7\<rparr>"
      and hs = sample_hostS and H = ?H and a = 2 and arity = 3
      and fn = "RNative Sum3" and M = "[RNum 2, RNum 3]" and s = 0 and r = "Inr (RNum 6)"
      and Ha = ?Ha and sa = 1 and N = "[RNum 4, RNum 5]" and j = 1
      and p = ?p and v = "Curried 3 (Native Sum3) [Num 1]"
      and xs = "[RNum 2, RNum 3]" and ys = "[Num 2, Num 3]"
      and zs = ?zs and sb = 1
      and ra = "Inr (RNum 6)" and Hc = ?Ha and sc = 1
      and rb = "Inr (RNum 6)" and Hd = ?Hd and sd = 2 and n = 6]
  have P: "pure_host sample_host" by (rule sample_host_pure)
  have G: "hosts_agree sample_hostS sample_host" by (rule sample_hosts_agree)
  have R: "rep ?H ?p (Curried 3 (Native Sum3) [Num 1])" by (simp add: rep_RClosure)
  have X: "list_all2 (rep ?H) [RNum 2, RNum 3] [Num 2, Num 3 :: sample val]" by simp
  have A: "(2::nat) < length ?H" by simp
  have L: "int (length (?H ! 2) + length [RNum 4, RNum 5 :: sample rval]) = 3" by simp
  have C: "callS sample_hostS 2 ?p [RNum 2, RNum 3] (?H, 0) = Some (Inr (RNum 6), ?Ha, 1)"
    by (simp add: ev)
  have Cb: "callS sample_hostS 2 ?p [RNum 2, RNum 3] (?H @ ?zs, 1) = Some (Inr (RNum 6), ?Hd, 2)"
    by (simp add: ev)
  have E: "curryS 3 (RNative Sum3) [] = (RClosure 3 (RNative Sum3) 0, [[] :: sample rval list])"
    by (simp add: ev)
  have F: "callS sample_hostS 1 (RClosure 3 (RNative Sum3) 0) [RNum 1] ([[]], 0) =
     Some (Inr ?p, ?H, 0)"
    by (simp add: ev)
  have S: "map_option fst (callSeq sample_host 2 (curry_js 3 (Native Sum3))
      [[Num 1], [Num 2, Num 3]] world0) = Some (Inr (Num 6))"
    by (simp add: ev)
  note D = T [THEN conjunct1, rule_format, OF P]
  note U = T [THEN conjunct2, THEN conjunct1, rule_format, OF A C]
  note V = U [THEN conjunct2, rule_format, OF L]
  note Y = T [THEN conjunct2, THEN conjunct2, rule_format, OF G P R X]
  note Z = Y [THEN conjunct2, rule_format, OF C Cb]
  have K: "callS sample_hostS 1 (RNative Sum3) (?H ! 2 @ [RNum 4, RNum 5])
      (?Ha @ [[RNum 4, RNum 5], ?H ! 2 @ [RNum 4, RNum 5]], 1) =
     Some (Inr (RNum 10), ?Ha @ [[RNum 4, RNum 5], [RNum 1, RNum 4, RNum 5]], 2)"
    by (simp add: ev)
  from V K have W: "callS sample_hostS 2 ?p [RNum 4, RNum 5] (?Ha, 1) =
     Some (Inr (RNum 10), ?Ha @ [[RNum 4, RNum 5], [RNum 1, RNum 4, RNum 5]], 2)"
    by (simp only: numeral_2_eq_2 One_nat_def)
  from D S have Sb: "map_option fst (callSeq sample_host 2 (curry_js 3 (Native Sum3))
      [[Num 1], [Num 2, Num 3]] \<lparr>trace = [(Native Add, [])], host = 7\<rparr>) = Some (Inr (Num 6))"
    by simp
  from Cb have Cb': "callS sample_hostS 2 ?p [RNum 2, RNum 3] (?Ha, 1) = Some (Inr (RNum 6), ?Hd, 2)"
    by simp
  from W have W': "callS sample_hostS 2 ?p [RNum 4, RNum 5] (?Ha, 1) =
     Some (Inr (RNum 10), [[], [RNum 1], [RNum 1], [RNum 2, RNum 3], [RNum 1, RNum 2, RNum 3],
            [RNum 4, RNum 5], [RNum 1, RNum 4, RNum 5]], 2)"
    by simp
  have N: "?Ha ! 2 = [RNum 1]" using U [THEN conjunct1, rule_format, OF A] by simp
  from P G S Sb E F R C N W' Cb' Z show ?thesis by (intro conjI)
qed

text \<open>
  Claim C7, as stated, fails for arity 0: the closure \<open>curry_js 0 fn\<close> is handed to
  the caller with the empty accumulator, whose length is not strictly less than 0.
\<close>

theorem initial_closure_not_waiting:
  "exposed sample_host 0 (Native Const42) (curry_js 0 (Native Const42)) \<and>
   accumulator (curry_js 0 (Native Const42) :: sample val) = [] \<and>
   \<not> waiting (curry_js 0 (Native Const42) :: sample val)"
  by (simp add: exposed.created) (simp add: curry_js_def curried_def)

text \<open>
  Claim C7, amended. \<open>curry_js arity fn\<close> holds the empty accumulator. Every closure
  a caller holds as still waiting holds strictly fewer than \<open>arity\<close> arguments, except
  the first one when \<open>arity \<le> 0\<close>: it is the first closure or it satisfies the bound,
  and when \<open>arity > 0\<close> all of them do. Every step keeps it so: whatever the arguments,
  the world and the fuel, if a call on such a closure comes back without the engine
  having invoked anything, it has returned a closure a caller holds as still waiting,
  whose accumulator is the old one followed by the new arguments and is strictly
  shorter than \<open>arity\<close>, and the world is untouched; the bound is the source's test
  \<^verbatim>\<open>argCount < arity\<close>. Such a step exists whenever the arguments stay below \<open>arity\<close>.
\<close>

theorem exposed_accumulator_bound:
  "accumulator (curry_js arity fn) = [] \<and>
   (exposed h arity fn c \<longrightarrow> c = curry_js arity fn \<or> waiting c) \<and>
   (exposed h arity fn c \<longrightarrow> 0 < arity \<longrightarrow> waiting c) \<and>
   (exposed h arity fn c \<longrightarrow> call h k c N w = Some (r, w') \<longrightarrow> trace w' = trace w \<longrightarrow>
      (\<exists>c'. r = Inr c' \<and> exposed h arity fn c' \<and>
            accumulator c' = accumulator c @ N \<and> waiting c' \<and> w' = w)) \<and>
   (exposed h arity fn c \<longrightarrow> int (length (accumulator c) + length N) < arity \<longrightarrow>
      call h (Suc j) c N w = Some (Inr (curried arity fn (accumulator c @ N)), w))"
proof (intro conjI impI)
  show "accumulator (curry_js arity fn) = []" by (simp add: curry_js_def curried_def)
next
  assume "exposed h arity fn c"
  from exposed_shape [OF this] show "c = curry_js arity fn \<or> waiting c"
    by (auto simp: curry_js_def curried_def)
next
  assume "exposed h arity fn c" "0 < arity"
  with exposed_shape [of h arity fn c] show "waiting c" by auto
next
  assume e: "exposed h arity fn c" and r: "call h k c N w = Some (r, w')"
    and q: "trace w' = trace w"
  from exposed_shape [OF e] obtain A where c: "c = Curried arity fn A" by blast
  from call_quiet [of h k arity fn A N w r w'] r q c
  have b: "int (length A + length N) < arity" and v: "r = Inr (Curried arity fn (A @ N))"
    and w: "w' = w" by simp_all
  from r v have "call h k c N w = Some (Inr (Curried arity fn (A @ N)), w')" by simp
  from exposed.resumed [OF e this q] have "exposed h arity fn (Curried arity fn (A @ N))" .
  with b v w c show "\<exists>c'. r = Inr c' \<and> exposed h arity fn c' \<and>
            accumulator c' = accumulator c @ N \<and> waiting c' \<and> w' = w" by simp
next
  assume e: "exposed h arity fn c" and b: "int (length (accumulator c) + length N) < arity"
  from exposed_shape [OF e] obtain A where c: "c = Curried arity fn A" by blast
  with b show "call h (Suc j) c N w = Some (Inr (curried arity fn (accumulator c @ N)), w)"
    by (simp add: curried_def)
qed

theorem exposed_accumulator_bound_witness:
  "exposed sample_host 3 (Native Sum3) (curry_js 3 (Native Sum3)) \<and> (0::int) < 3 \<and>
   waiting (curry_js 3 (Native Sum3) :: sample val) \<and>
   call sample_host 1 (curry_js 3 (Native Sum3)) [Num 1] world0 =
     Some (Inr (curried 3 (Native Sum3) [Num 1]), world0) \<and>
   trace world0 = trace world0 \<and>
   exposed sample_host 3 (Native Sum3) (curried 3 (Native Sum3) [Num 1]) \<and>
   accumulator (curried 3 (Native Sum3) [Num 1] :: sample val) = [Num 1] \<and>
   waiting (curried 3 (Native Sum3) [Num 1] :: sample val)"
proof -
  have e: "exposed sample_host 3 (Native Sum3) (curry_js 3 (Native Sum3))"
    by (rule exposed.created)
  have c: "call sample_host 1 (curry_js 3 (Native Sum3)) [Num 1] world0 =
     Some (Inr (curried 3 (Native Sum3) [Num 1]), world0)"
    by (simp add: curry_js_def curried_def)
  from e c exposed_accumulator_bound [where h = sample_host and arity = 3
      and fn = "Native Sum3" and c = "curry_js 3 (Native Sum3)" and N = "[Num 1]" and k = 1
      and j = 0 and w = world0 and w' = world0 and r = "Inr (curried 3 (Native Sum3) [Num 1])"]
  show ?thesis by (simp add: curry_js_def curried_def)
qed

section \<open>The documentation attacher's claims\<close>

text \<open>
  Claim C8. When \<^verbatim>\<open>env("FOLKTALE_DOCS", "false")\<close> is \<^verbatim>\<open>"false"\<close>, the call returns
  with \<open>target\<close> exactly as it was, reserved slot and other properties, for every
  source, target and extensions (first conjunct, for any \<^verbatim>\<open>env\<close>). With \<open>env\<close> as the
  specification describes it, that is the case when the variable is unset and when its
  value is the text \<^verbatim>\<open>false\<close> (second conjunct).
\<close>

theorem copyDocumentation_disabled:
  "(env' ''FOLKTALE_DOCS'' ''false'' = ''false'' \<longrightarrow>
      copyDocumentation env' source target extensions = ((), target)) \<and>
   (vars ''FOLKTALE_DOCS'' = None \<or> vars ''FOLKTALE_DOCS'' = Some ''false'' \<longrightarrow>
      copyDocumentation (env vars) source target extensions = ((), target))"
  by (auto simp: copyDocumentation_off env_def)

theorem copyDocumentation_disabled_witness:
  "(Map.empty :: string \<rightharpoonup> string) ''FOLKTALE_DOCS'' = None \<and>
   copyDocumentation (env Map.empty) \<lparr>mm = Some [''a'' \<mapsto> 1], props = Map.empty\<rparr>
       \<lparr>mm = Some [''z'' \<mapsto> 9], props = [''p'' \<mapsto> (5::int)]\<rparr> (Some [''b'' \<mapsto> 3]) =
     ((), \<lparr>mm = Some [''z'' \<mapsto> 9], props = [''p'' \<mapsto> 5]\<rparr>) \<and>
   [''FOLKTALE_DOCS'' \<mapsto> ''false''] ''FOLKTALE_DOCS'' = Some ''false'' \<and>
   copyDocumentation (env [''FOLKTALE_DOCS'' \<mapsto> ''false''])
       \<lparr>mm = Some [''a'' \<mapsto> 1], props = Map.empty\<rparr>
       \<lparr>mm = None, props = [''p'' \<mapsto> (5::int)]\<rparr> None =
     ((), \<lparr>mm = None, props = [''p'' \<mapsto> 5]\<rparr>)"
  using copyDocumentation_disabled [where vars = Map.empty and env' = "env Map.empty"
      and source = "\<lparr>mm = Some [''a'' \<mapsto> 1], props = Map.empty\<rparr>"
      and target = "\<lparr>mm = Some [''z'' \<mapsto> 9], props = [''p'' \<mapsto> (5::int)]\<rparr>"
      and extensions = "Some [''b'' \<mapsto> 3]"]
    copyDocumentation_disabled [where vars = "[''FOLKTALE_DOCS'' \<mapsto> ''false'']"
      and env' = "env [''FOLKTALE_DOCS'' \<mapsto> ''false'']"
      and source = "\<lparr>mm = Some [''a'' \<mapsto> 1], props = Map.empty\<rparr>"
      and target = "\<lparr>mm = None, props = [''p'' \<mapsto> (5::int)]\<rparr>"
      and extensions = None]
  by simp

text \<open>
  Claim C9. When the flag is enabled (\<^verbatim>\<open>env("FOLKTALE_DOCS", "false")\<close> is not
  \<^verbatim>\<open>"false"\<close>) and \<open>source\<close>'s reserved slot is \<open>d\<close>, the call sets \<open>target\<close>'s
  reserved slot to \<open>d\<close> overlaid with \<open>ext\<close>: under every key the slot holds \<open>ext\<close>'s
  value if \<open>ext\<close> has the key, and \<open>d\<close>'s otherwise, each value taken whole. The other
  properties of \<open>target\<close> stay, and the call returns no value. The witness is the
  specification's example, \<^verbatim>\<open>{a:1,b:2}\<close> with \<^verbatim>\<open>{b:3,c:4}\<close>.
\<close>

theorem copyDocumentation_enabled:
  "env' ''FOLKTALE_DOCS'' ''false'' \<noteq> ''false'' \<Longrightarrow> mm source = Some d \<Longrightarrow>
   copyDocumentation env' source target (Some ext) = ((), target\<lparr>mm := Some (d ++ ext)\<rparr>) \<and>
   (\<forall>key. (d ++ ext) key = (case ext key of Some x \<Rightarrow> Some x | None \<Rightarrow> d key)) \<and>
   props (snd (copyDocumentation env' source target (Some ext))) = props target \<and>
   fst (copyDocumentation env' source target (Some ext)) = ()"
  by (simp add: copyDocumentation_on map_add_def)

theorem copyDocumentation_enabled_witness:
  "env [''FOLKTALE_DOCS'' \<mapsto> ''true''] ''FOLKTALE_DOCS'' ''false'' \<noteq> ''false'' \<and>
   copyDocumentation (env [''FOLKTALE_DOCS'' \<mapsto> ''true''])
       \<lparr>mm = Some [''a'' \<mapsto> 1, ''b'' \<mapsto> 2], props = Map.empty\<rparr>
       \<lparr>mm = None, props = [''p'' \<mapsto> (5::int)]\<rparr>
       (Some [''b'' \<mapsto> 3, ''c'' \<mapsto> 4]) =
     ((), \<lparr>mm = Some [''a'' \<mapsto> 1, ''b'' \<mapsto> 3, ''c'' \<mapsto> 4], props = [''p'' \<mapsto> 5]\<rparr>)"
proof -
  have on: "env [''FOLKTALE_DOCS'' \<mapsto> ''true''] ''FOLKTALE_DOCS'' ''false'' \<noteq> ''false''"
    by (simp add: env_def)
  have m: "[''a'' \<mapsto> 1, ''b'' \<mapsto> 2] ++ [''b'' \<mapsto> 3, ''c'' \<mapsto> 4] =
           [''a'' \<mapsto> 1, ''b'' \<mapsto> 3, ''c'' \<mapsto> (4::int)]"
    by (auto simp: map_add_def fun_eq_iff)
  from on m copyDocumentation_enabled [where env' = "env [''FOLKTALE_DOCS'' \<mapsto> ''true'']" and
      source = "\<lparr>mm = Some [''a'' \<mapsto> 1, ''b'' \<mapsto> 2], props = Map.empty\<rparr>"
      and d = "[''a'' \<mapsto> 1, ''b'' \<mapsto> 2]"
      and target = "\<lparr>mm = None, props = [''p'' \<mapsto> (5::int)]\<rparr>"
      and ext = "[''b'' \<mapsto> 3, ''c'' \<mapsto> 4]"]
  show ?thesis by simp
qed

text \<open>
  Claim C10. When the flag is enabled, the reserved slot \<open>target\<close> ends with does not
  depend on the slot it had: replacing that slot by any \<open>other\<close> before the call gives
  the same slot after it (first conjunct); a key of the old slot that is neither in
  \<open>source\<close>'s slot nor in \<open>ext\<close> is absent from the new slot, as is every such key
  (second conjunct); and when \<open>source\<close> has no reserved slot the call returns normally
  and \<open>target\<close>'s slot is \<open>ext\<close> alone (third conjunct).
\<close>

theorem copyDocumentation_replaces:
  "env' ''FOLKTALE_DOCS'' ''false'' \<noteq> ''false'' \<Longrightarrow>
   mm (snd (copyDocumentation env' source target extensions)) =
     mm (snd (copyDocumentation env' source (target\<lparr>mm := other\<rparr>) extensions)) \<and>
   (\<forall>old slot key. mm target = Some old \<longrightarrow>
      mm (snd (copyDocumentation env' source target (Some ext))) = Some slot \<longrightarrow>
      key \<notin> dom (case mm source of None \<Rightarrow> Map.empty | Some d \<Rightarrow> d) \<longrightarrow> key \<notin> dom ext \<longrightarrow>
      slot key = None) \<and>
   (mm source = None \<longrightarrow>
      copyDocumentation env' source target (Some ext) = ((), target\<lparr>mm := Some ext\<rparr>))"
  by (auto simp: copyDocumentation_on map_add_def domIff split: option.splits)

theorem copyDocumentation_replaces_witness:
  "env [''FOLKTALE_DOCS'' \<mapsto> ''true''] ''FOLKTALE_DOCS'' ''false'' \<noteq> ''false'' \<and>
   copyDocumentation (env [''FOLKTALE_DOCS'' \<mapsto> ''true''])
       \<lparr>mm = None, props = Map.empty\<rparr>
       \<lparr>mm = Some [''z'' \<mapsto> 9], props = [''p'' \<mapsto> (5::int)]\<rparr>
       (Some [''b'' \<mapsto> 3]) =
     ((), \<lparr>mm = Some [''b'' \<mapsto> 3], props = [''p'' \<mapsto> 5]\<rparr>) \<and>
   [''b'' \<mapsto> (3::int)] ''z'' = None"
proof -
  have on: "env [''FOLKTALE_DOCS'' \<mapsto> ''true''] ''FOLKTALE_DOCS'' ''false'' \<noteq> ''false''"
    by (simp add: env_def)
  from on copyDocumentation_replaces [where env' = "env [''FOLKTALE_DOCS'' \<mapsto> ''true'']" and
      source = "\<lparr>mm = None, props = Map.empty\<rparr>"
      and target = "\<lparr>mm = Some [''z'' \<mapsto> 9], props = [''p'' \<mapsto> (5::int)]\<rparr>"
      and ext = "[''b'' \<mapsto> 3]"]
  show ?thesis by simp
qed

end
